theory Spec2Isabelle
  imports Complex_Main "HOL-Library.Multiset" "HOL-Library.Product_Lexorder"
begin

section \<open>Data model\<close>

text \<open>
  A \<^verbatim>\<open>datetime.timedelta\<close> is an integer number of microseconds; it is modelled as
  \<^typ>\<open>int\<close>.  A Python \<^verbatim>\<open>float\<close> holding seconds is modelled as an exact rational:
  rounding of binary floating point is abstracted away.
\<close>

type_synonym timedelta = int

record subtitle =
  index :: nat
  start :: timedelta
  end' :: timedelta
  content :: string

text \<open>The dictionaries \<^verbatim>\<open>{"start": ..., "end": ...}\<close> built by \<^verbatim>\<open>parse_srt_segments\<close>.\<close>

record segment =
  seg_start :: rat
  seg_end :: rat

definition total_seconds :: "timedelta \<Rightarrow> rat" where
  "total_seconds td = of_int td / 1000000"

text \<open>
  \<^verbatim>\<open>subs.sort(key=lambda x: x.start)\<close>: Python's sort is stable, and so is
  \<^const>\<open>sort_key\<close>.
\<close>

text \<open>\<^verbatim>\<open>int(x)\<close> on a float truncates towards zero.\<close>

definition py_int :: "rat \<Rightarrow> int" where
  "py_int x = (if 0 \<le> x then \<lfloor>x\<rfloor> else \<lceil>x\<rceil>)"

text \<open>Rounding to the nearest integer, ties to even: the rounding of \<^verbatim>\<open>timedelta(seconds=x)\<close>
  to microseconds and of the format specification \<^verbatim>\<open>:.5f\<close>.\<close>

definition round_half_even :: "rat \<Rightarrow> int" where
  "round_half_even x =
     (let f = \<lfloor>x\<rfloor>; d = x - of_int f
      in if d < 1 / 2 then f else if 1 / 2 < d then f + 1 else if even f then f else f + 1)"




datatype py_error = ZeroDivisionError | InvalidCueError

definition sort_by_start :: "subtitle list \<Rightarrow> subtitle list" where
  "sort_by_start subs = sort_key start subs"

section \<open>Segment merger (\<^verbatim>\<open>parse_srt_segments\<close>)\<close>

text \<open>
  The function is textually the same in \<^verbatim>\<open>ffmpeg_cut_select.py\<close> and
  \<^verbatim>\<open>ffmpeg_cut_trim.py\<close>.  The threshold \<^verbatim>\<open>0.5\<close> is a literal of the source.
\<close>

definition new_segment :: "subtitle \<Rightarrow> segment" where
  "new_segment x = \<lparr>seg_start = total_seconds (start x), seg_end = total_seconds (end' x)\<rparr>"

text \<open>The body of the \<^verbatim>\<open>for x in subs\<close> loop.\<close>

definition merge_step :: "segment list \<Rightarrow> subtitle \<Rightarrow> segment list" where
  "merge_step segments x =
     (if length segments = 0 then segments @ [new_segment x]
      else if total_seconds (start x) - seg_end (last segments) < 1 / 2
        then butlast segments @ [(last segments)\<lparr>seg_end := total_seconds (end' x)\<rparr>]
        else segments @ [new_segment x])"

definition merge_loop :: "subtitle list \<Rightarrow> segment list" where
  "merge_loop subs = foldl merge_step [] subs"

definition parse_srt_segments :: "subtitle list \<Rightarrow> segment list" where
  "parse_srt_segments subs = merge_loop (sort_by_start subs)"



text \<open>
  The same loop with a ghost component: every segment carries the cues that went into it.
  Its first components are the segments of \<^const>\<open>merge_loop\<close>.
\<close>

definition traced_step ::
    "(segment \<times> subtitle list) list \<Rightarrow> subtitle \<Rightarrow> (segment \<times> subtitle list) list" where
  "traced_step groups x =
     (if length groups = 0 then groups @ [(new_segment x, [x])]
      else if total_seconds (start x) - seg_end (fst (last groups)) < 1 / 2
        then butlast groups @
          [((fst (last groups))\<lparr>seg_end := total_seconds (end' x)\<rparr>, snd (last groups) @ [x])]
        else groups @ [(new_segment x, [x])])"

definition traced_loop :: "subtitle list \<Rightarrow> (segment \<times> subtitle list) list" where
  "traced_loop subs = foldl traced_step [] subs"

text \<open>The loop invariant of the merger over a prefix \<open>p\<close> of the sorted cues.\<close>

definition kept_inv :: "subtitle list \<Rightarrow> segment list \<Rightarrow> bool" where
  "kept_inv p segs \<longleftrightarrow>
     (\<forall>g \<in> set segs. seg_start g < seg_end g) \<and>
     sorted_wrt (\<lambda>a b. seg_end a + 1 / 2 \<le> seg_start b) segs \<and>
     (p \<noteq> [] \<longrightarrow> segs \<noteq> [] \<and> seg_start (last segs) \<le> total_seconds (start (last p)))"

section \<open>Timeline resynchronizer (\<^verbatim>\<open>sync_srt\<close>)\<close>




section \<open>Padding (\<^verbatim>\<open>pad_srt\<close>)\<close>




section \<open>Duration-matching synthesizer (\<^verbatim>\<open>srt_to_voice\<close>)\<close>

text \<open>
  An \<^verbatim>\<open>AudioSegment\<close> is modelled by its length \<^verbatim>\<open>len(seg)\<close> in milliseconds.  What
  the speech engine, the silence detector and the \<^verbatim>\<open>ffmpeg\<close> process return is not
  computed by this repository: it is the environment of the model.  \<open>synthesize idx\<close> is
  the length of the speech rendered for the cue numbered \<open>idx\<close>, \<open>trim_silence idx\<close> its
  length once leading and trailing silence is cut, and \<open>atempo fs a\<close> the length of the
  output of \<^verbatim>\<open>ffmpeg\<close> run with the filter chain \<open>fs\<close> on a buffer of length \<open>a\<close>.
\<close>

record environment =
  synthesize :: "nat \<Rightarrow> nat"
  trim_silence :: "nat \<Rightarrow> nat"
  atempo :: "rat list \<Rightarrow> nat \<Rightarrow> nat"

definition get_duration_ms :: "timedelta \<Rightarrow> int" where
  "get_duration_ms td = py_int (total_seconds td * 1000)"

text \<open>\<^verbatim>\<open>AudioSegment.silent(duration=d)\<close>, and the slice \<^verbatim>\<open>seg[:t]\<close> (a negative \<open>t\<close>
  counts from the end).\<close>

definition silent :: "int \<Rightarrow> nat" where
  "silent d = nat d"

definition slice_to :: "nat \<Rightarrow> int \<Rightarrow> nat" where
  "slice_to seg t = (if t < 0 then nat (int seg + t) else min seg (nat t))"

text \<open>The value printed by \<^verbatim>\<open>f"{remain:.5f}"\<close>.\<close>

definition fmt5 :: "rat \<Rightarrow> rat" where
  "fmt5 x = of_int (round_half_even (x * 100000)) / 100000"

text \<open>The two \<^verbatim>\<open>while\<close> loops of \<^verbatim>\<open>ffmpeg_speedup\<close>; a filter \<^verbatim>\<open>atempo=f\<close> is modelled
  by its factor \<open>f\<close>.  A loop that does not end has the value \<open>None\<close>.\<close>

partial_function (option) speed_loop_hi :: "rat \<Rightarrow> rat list \<Rightarrow> (rat \<times> rat list) option" where
  "speed_loop_hi remain atempo_filters =
     (if 2 < remain then speed_loop_hi (remain / 2) (atempo_filters @ [2])
      else Some (remain, atempo_filters))"

partial_function (option) speed_loop_lo :: "rat \<Rightarrow> rat list \<Rightarrow> (rat \<times> rat list) option" where
  "speed_loop_lo remain atempo_filters =
     (if remain < 1 / 2 then speed_loop_lo (remain / (1 / 2)) (atempo_filters @ [1 / 2])
      else Some (remain, atempo_filters))"

declare speed_loop_hi.simps [code]
declare speed_loop_lo.simps [code]

definition atempo_filters :: "rat \<Rightarrow> rat list option" where
  "atempo_filters speed =
     (case speed_loop_hi speed [] of
        None \<Rightarrow> None
      | Some (r1, f1) \<Rightarrow>
          (case speed_loop_lo r1 f1 of
             None \<Rightarrow> None
           | Some (r2, f2) \<Rightarrow> Some (f2 @ [fmt5 r2])))"

definition ffmpeg_speedup :: "environment \<Rightarrow> nat \<Rightarrow> rat \<Rightarrow> nat option" where
  "ffmpeg_speedup env audio speed =
     (case atempo_filters speed of
        None \<Rightarrow> None
      | Some fs \<Rightarrow> Some (atempo env fs audio))"

text \<open>Step 3 of the loop body of \<^verbatim>\<open>srt_to_voice\<close>: the buffer of one cue.  \<open>None\<close>: the
  call does not return; \<open>Inl\<close>: it raises.\<close>

definition match_duration :: "environment \<Rightarrow> nat \<Rightarrow> int \<Rightarrow> (py_error + nat) option" where
  "match_duration env idx target_len =
     (let seg = synthesize env idx
      in if target_len < int seg then
           (let seg = trim_silence env idx
            in if target_len = 0 then Some (Inl ZeroDivisionError)
               else (case ffmpeg_speedup env seg (of_nat seg / of_int target_len) of
                       None \<Rightarrow> None
                     | Some sped \<Rightarrow> Some (Inr (slice_to sped target_len))))
         else Some (Inr (seg + silent (target_len - int seg))))"





text \<open>Shape of a traced group: it is not empty, and its segment runs from the start of its
  first cue to the end of its last cue.\<close>

definition group_ok :: "segment \<times> subtitle list \<Rightarrow> bool" where
  "group_ok sg \<longleftrightarrow>
     snd sg \<noteq> [] \<and>
     seg_start (fst sg) = total_seconds (start (hd (snd sg))) \<and>
     seg_end (fst sg) = total_seconds (end' (last (snd sg)))"

text \<open>A cue from \<open>s\<close> to \<open>e\<close> milliseconds, the resolution of the timestamps of an SRT file.\<close>

definition cue_ms :: "int \<Rightarrow> int \<Rightarrow> subtitle" where
  "cue_ms s e = \<lparr>index = 0, start = s * 1000, end' = e * 1000, content = ''a''\<rparr>"

text \<open>The pair of timestamps of a cue: all that the merger reads of it.\<close>

definition span :: "subtitle \<Rightarrow> timedelta \<times> timedelta" where
  "span c = (start c, end' c)"



text \<open>Two environments for examples.  In \<open>short_env\<close> the speech lasts 3000 ms, has no
  silence to trim, and the stretched buffer that comes back is 1990 ms long; in
  \<open>silent_env\<close> the rendered buffer is silence only, so nothing is left once it is trimmed.
  In \<open>quick_env\<close> every rendered speech lasts 1500 ms.\<close>

definition short_env :: environment where
  "short_env = \<lparr>synthesize = (\<lambda>idx. 3000), trim_silence = (\<lambda>idx. 3000),
                 atempo = (\<lambda>fs a. 1990)\<rparr>"

definition silent_env :: environment where
  "silent_env = \<lparr>synthesize = (\<lambda>idx. 3000), trim_silence = (\<lambda>idx. 0),
                  atempo = (\<lambda>fs a. a)\<rparr>"

definition quick_env :: environment where
  "quick_env = \<lparr>synthesize = (\<lambda>idx. 1500), trim_silence = (\<lambda>idx. 1500),
                 atempo = (\<lambda>fs a. a)\<rparr>"

section \<open>Properties of the segment merger\<close>

lemma total_seconds_strict_mono: "a < b \<Longrightarrow> total_seconds a < total_seconds b"
  by (simp add: total_seconds_def divide_strict_right_mono)

lemma total_seconds_mono: "a \<le> b \<Longrightarrow> total_seconds a \<le> total_seconds b"
  by (simp add: total_seconds_def divide_right_mono)

lemma merge_loop_Nil: "merge_loop [] = []"
  by (simp add: merge_loop_def)

lemma merge_loop_snoc: "merge_loop (p @ [x]) = merge_step (merge_loop p) x"
  by (simp add: merge_loop_def)

lemma merge_step_nonempty: "merge_step segs x \<noteq> []"
  by (simp add: merge_step_def)

lemma merge_loop_nonempty: "p \<noteq> [] \<Longrightarrow> merge_loop p \<noteq> []"
  by (cases p rule: rev_cases) (simp_all add: merge_loop_snoc merge_step_nonempty)





lemma traced_loop_snoc: "traced_loop (p @ [x]) = traced_step (traced_loop p) x"
  by (simp add: traced_loop_def)

lemma map_fst_traced_step: "map fst (traced_step gs x) = merge_step (map fst gs) x"
  by (cases gs rule: rev_cases) (auto simp: traced_step_def merge_step_def)

lemma map_fst_traced_loop: "map fst (traced_loop p) = merge_loop p"
  by (induction p rule: rev_induct)
     (simp_all add: traced_loop_snoc merge_loop_snoc map_fst_traced_step traced_loop_def merge_loop_def)

lemma concat_traced_step: "concat (map snd (traced_step gs x)) = concat (map snd gs) @ [x]"
  by (cases gs rule: rev_cases) (auto simp: traced_step_def)

lemma concat_traced_loop: "concat (map snd (traced_loop p)) = p"
  by (induction p rule: rev_induct)
     (simp_all add: traced_loop_snoc concat_traced_step traced_loop_def)

lemma group_ok_traced_step:
  "\<forall>sg \<in> set gs. group_ok sg \<Longrightarrow> \<forall>sg \<in> set (traced_step gs x). group_ok sg"
  by (cases gs rule: rev_cases) (auto simp: traced_step_def group_ok_def new_segment_def)

lemma group_ok_traced_loop: "\<forall>sg \<in> set (traced_loop p). group_ok sg"
proof (induction p rule: rev_induct)
  case Nil
  then show ?case by (simp add: traced_loop_def)
next
  case (snoc x p)
  then show ?case unfolding traced_loop_snoc by (rule group_ok_traced_step)
qed

lemma sorted_concat_member:
  "sorted (map f (concat gs)) \<Longrightarrow> g \<in> set gs \<Longrightarrow> sorted (map f g)"
  by (induction gs) (auto simp: sorted_append)

lemma sorted_last_max:
  "sorted (map f g) \<Longrightarrow> c \<in> set g \<Longrightarrow> f c \<le> f (last g)"
  by (induction g rule: rev_induct) (auto simp: sorted_append)

lemma kept_inv_step:
  assumes inv: "kept_inv p segs" and ne: "p = [] \<longleftrightarrow> segs = []"
    and ord: "p \<noteq> [] \<Longrightarrow> start (last p) \<le> start x"
    and wf: "start x < end' x"
  shows "kept_inv (p @ [x]) (merge_step segs x)"
proof (cases "segs = []")
  case True
  then show ?thesis
    using wf by (simp add: kept_inv_def merge_step_def new_segment_def total_seconds_strict_mono)
next
  case False
  then obtain bs l where segs: "segs = bs @ [l]" by (cases segs rule: rev_cases) auto
  have pne: "p \<noteq> []" using False ne by simp
  have l1: "seg_start l \<le> total_seconds (start x)"
    using inv pne ord segs total_seconds_mono[of "start (last p)" "start x"]
    by (auto simp: kept_inv_def)
  have wfx: "total_seconds (start x) < total_seconds (end' x)"
    using wf by (rule total_seconds_strict_mono)
  have all: "\<forall>g \<in> set bs. seg_start g < seg_end g" and ll: "seg_start l < seg_end l"
    using inv segs by (auto simp: kept_inv_def)
  have sw: "sorted_wrt (\<lambda>a b. seg_end a + 1 / 2 \<le> seg_start b) bs"
    and bl: "\<forall>a \<in> set bs. seg_end a + 1 / 2 \<le> seg_start l"
    using inv segs by (auto simp: kept_inv_def sorted_wrt_append)
  show ?thesis
  proof (cases "total_seconds (start x) - seg_end l < 1 / 2")
    case True
    then have ms: "merge_step segs x = bs @ [l\<lparr>seg_end := total_seconds (end' x)\<rparr>]"
      by (simp add: merge_step_def segs)
    show ?thesis
      unfolding ms kept_inv_def using all sw bl l1 wfx
      by (auto simp: sorted_wrt_append)
  next
    case False
    then have ms: "merge_step segs x = bs @ [l, new_segment x]"
      by (simp add: merge_step_def segs)
    have "\<forall>a \<in> set bs. seg_end a + 1 / 2 \<le> total_seconds (start x)"
      using bl l1 by force
    then show ?thesis
      unfolding ms kept_inv_def using all ll sw bl wfx False
      by (auto simp: sorted_wrt_append new_segment_def)
  qed
qed

lemma kept_inv_merge_loop:
  "sorted (map start p) \<Longrightarrow> \<forall>c \<in> set p. start c < end' c \<Longrightarrow> kept_inv p (merge_loop p)"
proof (induction p rule: rev_induct)
  case Nil
  then show ?case by (simp add: kept_inv_def merge_loop_Nil)
next
  case (snoc x p)
  have s: "sorted (map start p)" and o: "p \<noteq> [] \<Longrightarrow> start (last p) \<le> start x"
    using snoc.prems(1) by (auto simp: sorted_append)
  have "kept_inv p (merge_loop p)" using snoc s by simp
  moreover have "p = [] \<longleftrightarrow> merge_loop p = []"
    using merge_loop_nonempty merge_loop_Nil by auto
  ultimately show ?case
    unfolding merge_loop_snoc using o snoc.prems(2) by (intro kept_inv_step) auto
qed

lemma sort_by_start_sorted: "sorted (map start (sort_by_start subs))"
  by (simp add: sort_by_start_def)

lemma set_sort_by_start: "set (sort_by_start subs) = set subs"
  by (simp add: sort_by_start_def)


subsection \<open>Kept intervals are disjoint, increasing and non-empty\<close>

text \<open>
  Claim C7, as stated for every cue list, fails: \<^verbatim>\<open>parse_srt_segments\<close> does not check its
  cues, and a cue whose end is not after its start comes out as an interval whose end is
  not after its start.
\<close>

theorem kept_intervals_degenerate:
  "parse_srt_segments [cue_ms 5000 1000] = [\<lparr>seg_start = 5, seg_end = 1\<rparr>] \<and>
   \<not> seg_start (hd (parse_srt_segments [cue_ms 5000 1000]))
       < seg_end (hd (parse_srt_segments [cue_ms 5000 1000]))"
  by (simp add: parse_srt_segments_def sort_by_start_def merge_loop_def merge_step_def
      new_segment_def cue_ms_def total_seconds_def)

text \<open>
  Claim C7, amended: for every list of cues that each end after they start, every kept
  interval ends after it starts, each interval ends before every later one starts
  (pairwise non-overlapping), and the starts are strictly increasing.
\<close>

theorem kept_intervals_ordered:
  assumes wf: "\<forall>c \<in> set subs. start c < end' c"
  shows "(\<forall>g \<in> set (parse_srt_segments subs). seg_start g < seg_end g) \<and>
         sorted_wrt (\<lambda>a b. seg_end a < seg_start b) (parse_srt_segments subs) \<and>
         sorted_wrt (\<lambda>a b. seg_start a < seg_start b) (parse_srt_segments subs)"
proof -
  let ?segs = "parse_srt_segments subs"
  have inv: "kept_inv (sort_by_start subs) ?segs"
    unfolding parse_srt_segments_def
    using wf by (intro kept_inv_merge_loop) (simp_all add: sort_by_start_sorted set_sort_by_start)
  then have pos: "\<forall>g \<in> set ?segs. seg_start g < seg_end g"
    and gap: "sorted_wrt (\<lambda>a b. seg_end a + 1 / 2 \<le> seg_start b) ?segs"
    by (simp_all add: kept_inv_def)
  have apart: "sorted_wrt (\<lambda>a b. seg_end a < seg_start b) ?segs"
    by (rule sorted_wrt_mono_rel[OF _ gap]) simp
  have incr: "sorted_wrt (\<lambda>a b. seg_start a < seg_start b) ?segs"
    by (rule sorted_wrt_mono_rel[OF _ apart]) (use pos in force)
  from pos apart incr show ?thesis by blast
qed

theorem kept_intervals_ordered_witness:
  "list_all (\<lambda>c. start c < end' c) [cue_ms 0 2000, cue_ms 10000 12000, cue_ms 2300 4000] \<and>
   list_all (\<lambda>g. seg_start g < seg_end g)
     (parse_srt_segments [cue_ms 0 2000, cue_ms 10000 12000, cue_ms 2300 4000]) \<and>
   sorted_wrt (\<lambda>a b. seg_end a < seg_start b)
     (parse_srt_segments [cue_ms 0 2000, cue_ms 10000 12000, cue_ms 2300 4000]) \<and>
   sorted_wrt (\<lambda>a b. seg_start a < seg_start b)
     (parse_srt_segments [cue_ms 0 2000, cue_ms 10000 12000, cue_ms 2300 4000]) \<and>
   parse_srt_segments [cue_ms 0 2000, cue_ms 10000 12000, cue_ms 2300 4000] =
     [\<lparr>seg_start = 0, seg_end = 4\<rparr>, \<lparr>seg_start = 10, seg_end = 12\<rparr>]"
proof -
  have h: "\<forall>c \<in> set [cue_ms 0 2000, cue_ms 10000 12000, cue_ms 2300 4000]. start c < end' c"
    by (simp add: cue_ms_def)
  have v: "parse_srt_segments [cue_ms 0 2000, cue_ms 10000 12000, cue_ms 2300 4000] =
     [\<lparr>seg_start = 0, seg_end = 4\<rparr>, \<lparr>seg_start = 10, seg_end = 12\<rparr>]"
    by code_simp
  show ?thesis
    unfolding list_all_iff using h v kept_intervals_ordered[OF h] by blast
qed

subsection \<open>Malformed cues\<close>




subsection \<open>The end of a merged interval\<close>

text \<open>
  Claim C2 fails on a cue nested in the previous one: the list is sorted by start and both
  cues are well formed, the second cue is merged (its start is less than half a second
  after the current end), and the current end becomes the end of the second cue, which
  is not the maximum of the two ends.
\<close>

theorem merge_end_not_max:
  "sorted (map start [cue_ms 0 10000, cue_ms 1000 2000]) \<and>
   start (cue_ms 0 10000) < end' (cue_ms 0 10000) \<and>
   start (cue_ms 1000 2000) < end' (cue_ms 1000 2000) \<and>
   total_seconds (start (cue_ms 1000 2000)) - seg_end (last (merge_loop [cue_ms 0 10000])) < 1 / 2 \<and>
   seg_end (last (merge_loop [cue_ms 0 10000, cue_ms 1000 2000])) \<noteq>
     max (seg_end (last (merge_loop [cue_ms 0 10000]))) (total_seconds (end' (cue_ms 1000 2000))) \<and>
   parse_srt_segments [cue_ms 0 10000, cue_ms 1000 2000] = [\<lparr>seg_start = 0, seg_end = 2\<rparr>]"
  by (simp add: parse_srt_segments_def sort_by_start_def merge_loop_def
      merge_step_def new_segment_def cue_ms_def total_seconds_def)

text \<open>
  Claim C2, amended: merging a cue sets the end of the current interval to the end of that
  cue.  So every kept interval runs from the start of the first cue merged into it to the
  end of the last cue merged into it; when the ends of the cues are non-decreasing in
  start order, that end is the maximum end over the cues merged into the interval.
  (\<^const>\<open>traced_loop\<close> records with every interval the cues merged into it; its
  intervals are those of \<^const>\<open>parse_srt_segments\<close>, and its groups partition the sorted
  cues.)
\<close>

theorem merged_interval_end:
  assumes "(seg, g) \<in> set (traced_loop (sort_by_start subs))"
  shows "map fst (traced_loop (sort_by_start subs)) = parse_srt_segments subs \<and>
         concat (map snd (traced_loop (sort_by_start subs))) = sort_by_start subs \<and>
         g \<noteq> [] \<and>
         seg_start seg = total_seconds (start (hd g)) \<and>
         seg_end seg = total_seconds (end' (last g)) \<and>
         (sorted (map end' (sort_by_start subs)) \<longrightarrow>
            (\<forall>c \<in> set g. total_seconds (end' c) \<le> seg_end seg))"
proof -
  let ?s = "sort_by_start subs"
  have ok: "group_ok (seg, g)" using group_ok_traced_loop assms by blast
  have mem: "g \<in> set (map snd (traced_loop ?s))" using assms by force
  have mx: "\<forall>c \<in> set g. total_seconds (end' c) \<le> seg_end seg" if "sorted (map end' ?s)"
  proof -
    from that have "sorted (map end' (concat (map snd (traced_loop ?s))))"
      by (simp add: concat_traced_loop)
    then have "sorted (map end' g)" using mem by (rule sorted_concat_member)
    then have "\<forall>c \<in> set g. end' c \<le> end' (last g)" by (blast intro: sorted_last_max)
    then show ?thesis using ok by (simp add: group_ok_def total_seconds_mono)
  qed
  show ?thesis
    using ok mx by (simp add: group_ok_def map_fst_traced_loop concat_traced_loop parse_srt_segments_def)
qed

theorem merged_interval_end_witness:
  "(\<lparr>seg_start = 0, seg_end = 4\<rparr>, [cue_ms 0 2000, cue_ms 2300 4000])
     \<in> set (traced_loop (sort_by_start [cue_ms 2300 4000, cue_ms 0 2000, cue_ms 10000 12000])) \<and>
   sorted (map end' (sort_by_start [cue_ms 2300 4000, cue_ms 0 2000, cue_ms 10000 12000])) \<and>
   list_all (\<lambda>c. total_seconds (end' c) \<le> 4) [cue_ms 0 2000, cue_ms 2300 4000] \<and>
   map fst (traced_loop (sort_by_start [cue_ms 2300 4000, cue_ms 0 2000, cue_ms 10000 12000])) =
     parse_srt_segments [cue_ms 2300 4000, cue_ms 0 2000, cue_ms 10000 12000]"
proof -
  have s: "sort_by_start [cue_ms 2300 4000, cue_ms 0 2000, cue_ms 10000 12000] =
      [cue_ms 0 2000, cue_ms 2300 4000, cue_ms 10000 12000]"
    by (simp add: sort_by_start_def cue_ms_def)
  have m: "(\<lparr>seg_start = 0, seg_end = 4\<rparr>, [cue_ms 0 2000, cue_ms 2300 4000])
     \<in> set (traced_loop (sort_by_start [cue_ms 2300 4000, cue_ms 0 2000, cue_ms 10000 12000]))"
    unfolding s
    by (simp add: traced_loop_def traced_step_def new_segment_def cue_ms_def total_seconds_def)
  have o: "sorted (map end' (sort_by_start [cue_ms 2300 4000, cue_ms 0 2000, cue_ms 10000 12000]))"
    unfolding s by (simp add: cue_ms_def)
  from merged_interval_end[OF m] o m show ?thesis
    unfolding list_all_iff by simp
qed

subsection \<open>Dependence on the input order\<close>

lemma merge_step_span: "span x = span y \<Longrightarrow> merge_step segs x = merge_step segs y"
  by (simp add: merge_step_def new_segment_def span_def)

lemma foldl_merge_step_span:
  "length xs = length ys \<Longrightarrow> map span xs = map span ys \<Longrightarrow>
   foldl merge_step acc xs = foldl merge_step acc ys"
proof (induction xs ys arbitrary: acc rule: list_induct2)
  case Nil
  then show ?case by simp
next
  case (Cons x xs y ys)
  then show ?case using merge_step_span[of x y acc] by simp
qed

lemma merge_loop_span: "map span xs = map span ys \<Longrightarrow> merge_loop xs = merge_loop ys"
  unfolding merge_loop_def
  by (rule foldl_merge_step_span) (auto dest: map_eq_imp_length_eq)

lemma span_sorted:
  assumes tie: "\<forall>a \<in> set xs. \<forall>b \<in> set xs. start a = start b \<longrightarrow> end' a = end' b"
  shows "map span (sort_by_start xs) = sort (map span xs)"
proof -
  have m: "mset (map span (sort_by_start xs)) = mset (map span xs)"
    by (simp add: sort_by_start_def)
  have "sorted_wrt (\<lambda>a b. start a \<le> start b) (sort_by_start xs)"
    using sort_by_start_sorted[of xs] by (simp only: sorted_map)
  then have "sorted_wrt (\<lambda>a b. span a \<le> span b) (sort_by_start xs)"
  proof (rule sorted_wrt_mono_rel[rotated])
    fix a b
    assume a: "a \<in> set (sort_by_start xs)" and b: "b \<in> set (sort_by_start xs)"
      and le: "start a \<le> start b"
    show "span a \<le> span b"
    proof (cases "start a = start b")
      case True
      moreover have "end' a = end' b"
        using tie a b True unfolding set_sort_by_start by blast
      ultimately show ?thesis by (simp add: span_def)
    next
      case False
      with le show ?thesis by (simp add: span_def)
    qed
  qed
  then have s: "sorted (map span (sort_by_start xs))"
    by (simp only: sorted_map)
  from properties_for_sort[OF m s] show ?thesis by simp
qed

text \<open>
  Claim C8 fails: the sort is by start only and is stable, and a merge takes the end of the
  cue merged last.  Two cues with the same start and different ends give different
  intervals in their two orders.
\<close>

theorem merger_order_dependent:
  "mset [cue_ms 0 5000, cue_ms 0 1000] = mset [cue_ms 0 1000, cue_ms 0 5000] \<and>
   parse_srt_segments [cue_ms 0 5000, cue_ms 0 1000] = [\<lparr>seg_start = 0, seg_end = 1\<rparr>] \<and>
   parse_srt_segments [cue_ms 0 1000, cue_ms 0 5000] = [\<lparr>seg_start = 0, seg_end = 5\<rparr>] \<and>
   parse_srt_segments [cue_ms 0 5000, cue_ms 0 1000] \<noteq>
     parse_srt_segments [cue_ms 0 1000, cue_ms 0 5000]"
  by (simp add: parse_srt_segments_def sort_by_start_def merge_loop_def
      merge_step_def new_segment_def cue_ms_def total_seconds_def add_mset_commute)

text \<open>
  Claim C8, amended: for two cue lists with the same multiset of cues in which cues that
  start together also end together, the merger gives the same kept intervals.
\<close>

theorem merger_order_invariant:
  assumes perm: "mset xs = mset ys"
    and tie: "\<forall>a \<in> set xs. \<forall>b \<in> set xs. start a = start b \<longrightarrow> end' a = end' b"
  shows "parse_srt_segments xs = parse_srt_segments ys"
proof -
  have sets: "set xs = set ys" using perm by (rule mset_eq_setD)
  have tie': "\<forall>a \<in> set ys. \<forall>b \<in> set ys. start a = start b \<longrightarrow> end' a = end' b"
    using tie unfolding sets .
  have m: "mset (sort (map span ys)) = mset (map span xs)"
    using perm by simp
  have s: "sorted (sort (map span ys))"
    by (rule sorted_sort)
  have e: "sort (map span xs) = sort (map span ys)"
    using m s by (rule properties_for_sort)
  have "map span (sort_by_start xs) = map span (sort_by_start ys)"
    unfolding span_sorted[OF tie] span_sorted[OF tie'] by (rule e)
  then show ?thesis
    unfolding parse_srt_segments_def by (rule merge_loop_span)
qed

theorem merger_order_invariant_witness:
  "mset [cue_ms 2300 4000, cue_ms 0 2000, cue_ms 10000 12000] =
     mset [cue_ms 10000 12000, cue_ms 2300 4000, cue_ms 0 2000] \<and>
   distinct (map start [cue_ms 2300 4000, cue_ms 0 2000, cue_ms 10000 12000]) \<and>
   parse_srt_segments [cue_ms 2300 4000, cue_ms 0 2000, cue_ms 10000 12000] =
     parse_srt_segments [cue_ms 10000 12000, cue_ms 2300 4000, cue_ms 0 2000]"
proof -
  have p: "mset [cue_ms 2300 4000, cue_ms 0 2000, cue_ms 10000 12000] =
     mset [cue_ms 10000 12000, cue_ms 2300 4000, cue_ms 0 2000]"
    by (simp add: add_mset_commute)
  have t: "\<forall>a \<in> set [cue_ms 2300 4000, cue_ms 0 2000, cue_ms 10000 12000].
     \<forall>b \<in> set [cue_ms 2300 4000, cue_ms 0 2000, cue_ms 10000 12000].
       start a = start b \<longrightarrow> end' a = end' b"
    by (simp add: cue_ms_def)
  have d: "distinct (map start [cue_ms 2300 4000, cue_ms 0 2000, cue_ms 10000 12000])"
    by (simp add: cue_ms_def)
  from merger_order_invariant[OF p t] p d show ?thesis by blast
qed

section \<open>Properties of the resynchronizer\<close>

lemma round_half_even_of_int: "round_half_even (of_int d) = d"
  by (simp add: round_half_even_def)


















subsection \<open>Merger and resynchronizer decide alike at the threshold of the merger\<close>




subsection \<open>Duration dropped by the resynchronizer\<close>




section \<open>Properties of the padding\<close>











section \<open>Properties of the duration-matching synthesizer\<close>

lemma speed_loop_hi_returns:
  "\<exists>k. speed_loop_hi r fs = Some (r / 2 ^ k, fs @ replicate k 2) \<and> r / 2 ^ k \<le> 2 \<and>
       (0 < r \<longrightarrow> 0 < r / 2 ^ k)"
proof (induction "nat \<lceil>r\<rceil>" arbitrary: r fs rule: less_induct)
  case less
  show ?case
  proof (cases "2 < r")
    case False
    then have "speed_loop_hi r fs = Some (r / 2 ^ 0, fs @ replicate 0 2)"
      by (subst speed_loop_hi.simps) simp
    moreover have "r / 2 ^ 0 \<le> 2" using False by simp
    ultimately show ?thesis by (intro exI[of _ 0]) simp
  next
    case True
    have "\<lceil>r / 2\<rceil> \<le> \<lceil>r - 1\<rceil>" using True by (intro ceiling_mono) simp
    then have c: "\<lceil>r / 2\<rceil> \<le> \<lceil>r\<rceil> - 1" by simp
    have "0 < \<lceil>r\<rceil>" using True by (simp add: less_ceiling_iff)
    with c have "nat \<lceil>r / 2\<rceil> < nat \<lceil>r\<rceil>" by linarith
    from less[OF this, of "fs @ [2]"]
    obtain k where k: "speed_loop_hi (r / 2) (fs @ [2]) = Some (r / 2 / 2 ^ k, (fs @ [2]) @ replicate k 2)"
      "r / 2 / 2 ^ k \<le> 2" "0 < r / 2 \<longrightarrow> 0 < r / 2 / 2 ^ k"
      by blast
    have "speed_loop_hi r fs = speed_loop_hi (r / 2) (fs @ [2])"
      using True by (subst speed_loop_hi.simps) simp
    then have "speed_loop_hi r fs = Some (r / 2 ^ Suc k, fs @ replicate (Suc k) 2)"
      using k(1) by (simp add: replicate_app_Cons_same)
    moreover have "r / 2 ^ Suc k \<le> 2" "0 < r \<longrightarrow> 0 < r / 2 ^ Suc k"
      using k(2,3) by simp_all
    ultimately show ?thesis by blast
  qed
qed

lemma speed_loop_lo_returns:
  assumes "0 < r"
  shows "\<exists>m. speed_loop_lo r fs = Some (r * 2 ^ m, fs @ replicate m (1 / 2)) \<and>
             1 / 2 \<le> r * 2 ^ m \<and> (r \<le> 2 \<longrightarrow> r * 2 ^ m \<le> 2)"
  using assms
proof (induction "nat \<lceil>1 / r\<rceil>" arbitrary: r fs rule: less_induct)
  case less
  show ?case
  proof (cases "r < 1 / 2")
    case False
    then have "speed_loop_lo r fs = Some (r * 2 ^ 0, fs @ replicate 0 (1 / 2))"
      by (subst speed_loop_lo.simps) simp
    then show ?thesis using False by (intro exI[of _ 0]) simp
  next
    case True
    have pos: "0 < r * 2" using less.prems by simp
    have big: "2 < 1 / r" using True less.prems by (simp add: field_simps)
    have "1 / (r * 2) \<le> 1 / r - 1" using big by (simp add: field_simps)
    then have "\<lceil>1 / (r * 2)\<rceil> \<le> \<lceil>1 / r - 1\<rceil>" by (rule ceiling_mono)
    then have c: "\<lceil>1 / (r * 2)\<rceil> \<le> \<lceil>1 / r\<rceil> - 1" by simp
    have "0 < \<lceil>1 / r\<rceil>" using less.prems by (simp add: less_ceiling_iff)
    with c have "nat \<lceil>1 / (r * 2)\<rceil> < nat \<lceil>1 / r\<rceil>" by linarith
    from less.hyps[OF this pos, of "fs @ [1 / 2]"]
    obtain m where m: "speed_loop_lo (r * 2) (fs @ [1 / 2]) =
          Some (r * 2 * 2 ^ m, (fs @ [1 / 2]) @ replicate m (1 / 2))"
      "1 / 2 \<le> r * 2 * 2 ^ m" "r * 2 \<le> 2 \<longrightarrow> r * 2 * 2 ^ m \<le> 2"
      by blast
    have "speed_loop_lo r fs = speed_loop_lo (r * 2) (fs @ [1 / 2])"
      using True by (subst speed_loop_lo.simps) simp
    then have "speed_loop_lo r fs = Some (r * 2 ^ Suc m, fs @ replicate (Suc m) (1 / 2))"
      using m(1) by (simp add: replicate_app_Cons_same mult.assoc)
    moreover have "1 / 2 \<le> r * 2 ^ Suc m" "r \<le> 2 \<longrightarrow> r * 2 ^ Suc m \<le> 2"
      using m(2,3) True by (simp_all add: mult.assoc)
    ultimately show ?thesis by blast
  qed
qed

lemma round_half_even_cases:
  "(round_half_even x = \<lfloor>x\<rfloor> \<and> x - of_int \<lfloor>x\<rfloor> \<le> 1 / 2) \<or>
   (round_half_even x = \<lfloor>x\<rfloor> + 1 \<and> 1 / 2 \<le> x - of_int \<lfloor>x\<rfloor>)"
  by (auto simp: round_half_even_def Let_def)

lemma round_half_even_error: "\<bar>of_int (round_half_even x) - x\<bar> \<le> 1 / 2"
proof -
  have "of_int \<lfloor>x\<rfloor> \<le> x" "x < of_int \<lfloor>x\<rfloor> + 1" by linarith+
  then show ?thesis using round_half_even_cases[of x] by auto
qed

lemma round_half_even_ge: "of_int n \<le> x \<Longrightarrow> n \<le> round_half_even x"
  using round_half_even_cases[of x] le_floor_iff[of n x] by auto

lemma round_half_even_le: "x \<le> of_int n \<Longrightarrow> round_half_even x \<le> n"
proof (cases "x = of_int n")
  case True
  then show ?thesis by (simp add: round_half_even_of_int)
next
  case False
  assume "x \<le> of_int n"
  with False have "x < of_int n" by simp
  then have "\<lfloor>x\<rfloor> < n" by (simp add: floor_less_iff)
  then show ?thesis using round_half_even_cases[of x] by auto
qed

lemma fmt5_error: "\<bar>fmt5 x - x\<bar> \<le> 1 / 200000"
proof -
  have "\<bar>of_int (round_half_even (x * 100000)) - x * 100000\<bar> \<le> 1 / 2"
    by (rule round_half_even_error)
  then show ?thesis by (simp add: fmt5_def field_simps abs_le_iff)
qed

lemma fmt5_range: "1 / 2 \<le> x \<Longrightarrow> x \<le> 2 \<Longrightarrow> 1 / 2 \<le> fmt5 x \<and> fmt5 x \<le> 2"
proof -
  assume a: "1 / 2 \<le> x" "x \<le> 2"
  have lo: "of_int 50000 \<le> x * 100000" and hi: "x * 100000 \<le> of_int 200000"
    using a by simp_all
  have "50000 \<le> round_half_even (x * 100000)" "round_half_even (x * 100000) \<le> 200000"
    using round_half_even_ge[OF lo] round_half_even_le[OF hi] by simp_all
  then have "(50000 :: rat) \<le> of_int (round_half_even (x * 100000))"
    "of_int (round_half_even (x * 100000)) \<le> (200000 :: rat)"
    by linarith+
  then show ?thesis by (simp add: fmt5_def field_simps)
qed

lemma atempo_filters_shape:
  assumes "0 < r"
  shows "\<exists>k m rem.
     atempo_filters r = Some (replicate k 2 @ replicate m (1 / 2) @ [fmt5 rem]) \<and>
     r = 2 ^ k * (1 / 2) ^ m * rem \<and> 1 / 2 \<le> rem \<and> rem \<le> 2 \<and>
     \<bar>fmt5 rem - rem\<bar> \<le> 1 / 200000 \<and>
     (\<forall>f \<in> set (replicate k 2 @ replicate m (1 / 2) @ [fmt5 rem]). 1 / 2 \<le> f \<and> f \<le> 2) \<and>
     \<bar>prod_list (replicate k 2 @ replicate m (1 / 2) @ [fmt5 rem]) - r\<bar> \<le> r / 100000"
proof -
  obtain k where k: "speed_loop_hi r [] = Some (r / 2 ^ k, [] @ replicate k 2)"
    "r / 2 ^ k \<le> 2" "0 < r / 2 ^ k"
    using speed_loop_hi_returns[of r "[]"] assms by blast
  obtain m where m: "speed_loop_lo (r / 2 ^ k) (replicate k 2) =
      Some (r / 2 ^ k * 2 ^ m, replicate k 2 @ replicate m (1 / 2))"
    "1 / 2 \<le> r / 2 ^ k * 2 ^ m" "r / 2 ^ k * 2 ^ m \<le> 2"
    using speed_loop_lo_returns[OF k(3), of "replicate k 2"] k(2) by blast
  define rem where "rem = r / 2 ^ k * 2 ^ m"
  define c :: rat where "c = 2 ^ k * (1 / 2) ^ m"
  have cpos: "0 < c" by (simp add: c_def)
  have r: "r = c * rem"
    by (simp add: rem_def c_def power_divide)
  have chain: "atempo_filters r = Some (replicate k 2 @ replicate m (1 / 2) @ [fmt5 rem])"
    using k(1) m(1) by (simp add: atempo_filters_def rem_def)
  have rng: "1 / 2 \<le> rem" "rem \<le> 2" using m(2,3) by (simp_all add: rem_def)
  have frng: "1 / 2 \<le> fmt5 rem \<and> fmt5 rem \<le> 2" using rng by (rule fmt5_range)
  have all: "\<forall>f \<in> set (replicate k 2 @ replicate m (1 / 2) @ [fmt5 rem]). 1 / 2 \<le> f \<and> f \<le> 2"
    using frng by auto
  have pl: "prod_list (replicate k 2 @ replicate m (1 / 2) @ [fmt5 rem]) = c * fmt5 rem"
    by (simp add: c_def prod_list_replicate)
  have "c * fmt5 rem - c * rem = c * (fmt5 rem - rem)"
    by (simp add: right_diff_distrib)
  then have "\<bar>c * fmt5 rem - c * rem\<bar> = c * \<bar>fmt5 rem - rem\<bar>"
    using cpos by (simp add: abs_mult)
  then have "\<bar>prod_list (replicate k 2 @ replicate m (1 / 2) @ [fmt5 rem]) - r\<bar>
      = c * \<bar>fmt5 rem - rem\<bar>"
    unfolding pl r .
  also have "\<dots> \<le> c * (1 / 200000)"
    using cpos fmt5_error[of rem] by (intro mult_left_mono) simp_all
  also have "\<dots> \<le> c * rem / 100000"
  proof -
    have "c * (1 / 2) \<le> c * rem" using cpos rng(1) by (intro mult_left_mono) simp_all
    then show ?thesis by simp
  qed
  finally have err: "\<bar>prod_list (replicate k 2 @ replicate m (1 / 2) @ [fmt5 rem]) - r\<bar>
      \<le> r / 100000"
    by (simp add: r)
  have "r = 2 ^ k * (1 / 2) ^ m * rem" using r by (simp add: c_def)
  with chain rng fmt5_error[of rem] all err show ?thesis by blast
qed

lemma atempo_filters_total: "0 < r \<Longrightarrow> \<exists>fs. atempo_filters r = Some fs"
  using atempo_filters_shape[of r] by blast

lemma speed_loop_lo_Some_pos:
  fixes r :: rat and fs :: "rat list" and y :: "rat \<times> rat list"
  shows "speed_loop_lo r fs = Some y \<Longrightarrow> 0 < r"
proof (rule speed_loop_lo.raw_induct[where P="\<lambda>r fs y. 0 < r"])
  fix f :: "rat \<Rightarrow> rat list \<Rightarrow> (rat \<times> rat list) option" and r :: rat and fs y
  assume IH: "\<And>r fs y. f r fs = Some y \<Longrightarrow> 0 < r"
    and eq: "(if r < 1 / 2 then f (r / (1 / 2)) (fs @ [1 / 2]) else Some (r, fs)) = Some y"
  show "0 < r"
  proof (cases "r < 1 / 2")
    case True
    with eq have "f (r / (1 / 2)) (fs @ [1 / 2]) = Some y" by simp
    then have "0 < r / (1 / 2)" by (rule IH)
    then show ?thesis by simp
  next
    case False
    then show ?thesis by simp
  qed
qed

lemma speed_loop_lo_diverges: "r \<le> 0 \<Longrightarrow> speed_loop_lo r fs = None"
  using speed_loop_lo_Some_pos[of r fs] by (cases "speed_loop_lo r fs") auto

lemma atempo_filters_zero: "atempo_filters 0 = None"
proof -
  have "speed_loop_hi 0 [] = Some (0, [])"
    by (subst speed_loop_hi.simps) simp
  then show ?thesis
    by (simp add: atempo_filters_def speed_loop_lo_diverges)
qed






subsection \<open>The chain of tempo factors\<close>

text \<open>
  Claim C6: for every speed ratio \<open>r > 0\<close> both loops of \<^verbatim>\<open>ffmpeg_speedup\<close> end, and the
  chain of filters is \<open>k\<close> factors 2.0, then \<open>m\<close> factors 0.5, then the remaining factor
  printed with five decimals.  The exact remaining factor \<open>rem\<close> lies in \<open>[0.5, 2]\<close> and
  \<open>2^k * 0.5^m * rem = r\<close>; the printed factor differs from it by at most 0.000005 and lies
  in \<open>[0.5, 2]\<close> too, so every factor of the chain lies in \<open>[0.5, 2]\<close> and the product
  of the chain differs from \<open>r\<close> by at most \<open>r / 100000\<close>.
\<close>

theorem atempo_chain_decomposition:
  assumes "0 < r"
  shows "\<exists>k m rem.
     atempo_filters r = Some (replicate k 2 @ replicate m (1 / 2) @ [fmt5 rem]) \<and>
     r = 2 ^ k * (1 / 2) ^ m * rem \<and> 1 / 2 \<le> rem \<and> rem \<le> 2 \<and>
     \<bar>fmt5 rem - rem\<bar> \<le> 1 / 200000 \<and>
     (\<forall>f \<in> set (replicate k 2 @ replicate m (1 / 2) @ [fmt5 rem]). 1 / 2 \<le> f \<and> f \<le> 2) \<and>
     \<bar>prod_list (replicate k 2 @ replicate m (1 / 2) @ [fmt5 rem]) - r\<bar> \<le> r / 100000"
  using assms by (rule atempo_filters_shape)

theorem atempo_chain_decomposition_witness:
  "(0 :: rat) < 5 \<and> atempo_filters 5 = Some [2, 2, 5 / 4] \<and>
   (\<exists>k m rem. atempo_filters 5 = Some (replicate k 2 @ replicate m (1 / 2) @ [fmt5 rem]) \<and>
      5 = 2 ^ k * (1 / 2) ^ m * rem \<and> 1 / 2 \<le> rem \<and> rem \<le> 2)"
proof -
  have h: "(0 :: rat) < 5" by simp
  have v: "atempo_filters 5 = Some [2, 2, 5 / 4]" by code_simp
  from atempo_chain_decomposition[OF h] h v show ?thesis by blast
qed

subsection \<open>The buffer of one cue\<close>

text \<open>
  Claim C3 at two inputs where the code misses it, both in the branch that stretches.  The
  slice \<^verbatim>\<open>seg[:target_len]\<close> only cuts, and that branch never pads: for a cue of 2000 ms
  and a speech of 3000 ms, a stretched buffer that comes back 1990 ms long stays 1990 ms
  long.  And a rendered buffer that is silence only is empty once trimmed, the speed is 0,
  and the second loop of \<^verbatim>\<open>ffmpeg_speedup\<close> does not end: no buffer is produced.
\<close>

theorem stretched_buffer_short:
  "get_duration_ms (end' (cue_ms 0 2000) - start (cue_ms 0 2000)) = 2000 \<and>
   match_duration short_env 1 2000 = Some (Inr 1990) \<and>
   match_duration silent_env 1 2000 = None"
proof -
  have a: "atempo_filters (3 / 2) = Some [3 / 2]" by code_simp
  have "match_duration short_env 1 2000 = Some (Inr 1990)"
    by (simp add: match_duration_def short_env_def ffmpeg_speedup_def a slice_to_def)
  moreover have "match_duration silent_env 1 2000 = None"
    by (simp add: match_duration_def silent_env_def ffmpeg_speedup_def atempo_filters_zero)
  moreover have "get_duration_ms (end' (cue_ms 0 2000) - start (cue_ms 0 2000)) = 2000"
    by (simp add: get_duration_ms_def cue_ms_def total_seconds_def py_int_def)
  ultimately show ?thesis by simp
qed

text \<open>
  What the loop body does guarantee for one cue with a target length of at least one
  millisecond: if the rendered speech is not longer than the target, the buffer is padded
  to exactly the target length; if it is longer and something is left after trimming,
  the chain of tempo filters is built and the buffer is the stretched buffer cut to at
  most the target length, so it is never longer than the target, and it has exactly the
  target length when the stretched buffer is not shorter than it.
\<close>

theorem match_duration_length:
  assumes "0 < target_len"
  shows "(int (synthesize env idx) \<le> target_len \<longrightarrow>
            match_duration env idx target_len = Some (Inr (nat target_len))) \<and>
         (target_len < int (synthesize env idx) \<and> 0 < trim_silence env idx \<longrightarrow>
            (\<exists>fs. atempo_filters (of_nat (trim_silence env idx) / of_int target_len) = Some fs \<and>
               match_duration env idx target_len =
                 Some (Inr (min (atempo env fs (trim_silence env idx)) (nat target_len)))))"
proof (intro conjI impI)
  assume "int (synthesize env idx) \<le> target_len"
  then show "match_duration env idx target_len = Some (Inr (nat target_len))"
    by (simp add: match_duration_def Let_def silent_def)
next
  assume a: "target_len < int (synthesize env idx) \<and> 0 < trim_silence env idx"
  let ?speed = "of_nat (trim_silence env idx) / of_int target_len :: rat"
  have "0 < ?speed" using a assms by simp
  then obtain fs where fs: "atempo_filters ?speed = Some fs"
    using atempo_filters_total by blast
  then have "match_duration env idx target_len =
      Some (Inr (min (atempo env fs (trim_silence env idx)) (nat target_len)))"
    using a assms
    by (simp add: match_duration_def Let_def ffmpeg_speedup_def slice_to_def)
  with fs show "\<exists>fs. atempo_filters ?speed = Some fs \<and>
               match_duration env idx target_len =
                 Some (Inr (min (atempo env fs (trim_silence env idx)) (nat target_len)))"
    by blast
qed

theorem match_duration_length_witness:
  "(0 :: int) < 2000 \<and>
   match_duration quick_env 1 2000 = Some (Inr 2000) \<and>
   match_duration short_env 1 2000 = Some (Inr (min 1990 2000))"
proof -
  have h: "(0 :: int) < 2000" by simp
  have "match_duration quick_env 1 2000 = Some (Inr 2000)"
    using match_duration_length[OF h, of quick_env 1] by (simp add: quick_env_def)
  moreover have "match_duration short_env 1 2000 = Some (Inr (min 1990 2000))"
    using match_duration_length[OF h, of short_env 1] by (auto simp: short_env_def)
  ultimately show ?thesis by simp
qed

subsection \<open>The length of the whole track\<close>




end
